theory Spec2Isabelle
  imports Main
begin

section \<open>Text primitives of the pipeline\<close>

text \<open>
  The program of \<^verbatim>\<open>multi_agent.py\<close> works on Python \<^verbatim>\<open>str\<close> values. A text is modelled
  as a \<^typ>\<open>string\<close>, the list of the bytes of its UTF-8 encoding. Searching and splitting
  at an ASCII separator give the same pieces on the bytes as on the code points, and an
  encoded code point matches the bytes only where a code point starts: a multi-byte
  encoding starts with a lead byte, which is never a byte inside another encoding.
\<close>

text \<open>\<^verbatim>\<open>s.startswith(p)\<close>.\<close>

fun startswith :: "string \<Rightarrow> string \<Rightarrow> bool" where
  "startswith s [] = True"
| "startswith [] (p # ps) = False"
| "startswith (c # cs) (p # ps) = (c = p \<and> startswith cs ps)"

text \<open>
  The code points that \<^verbatim>\<open>str.strip\<close> removes, those for which \<^verbatim>\<open>str.isspace\<close> holds, in
  UTF-8: the ten below code point 128 (tab to carriage return, the four separators 0x1C to
  0x1F, the space), then U+0085, U+00A0, U+1680, U+2000 to U+200A, U+2028, U+2029, U+202F,
  U+205F and U+3000.
\<close>

definition whitespace :: "string list" where
  "whitespace =
     [[CHR 0x09], [CHR 0x0A], [CHR 0x0B], [CHR 0x0C], [CHR 0x0D],
      [CHR 0x1C], [CHR 0x1D], [CHR 0x1E], [CHR 0x1F], [CHR 0x20],
      [CHR 0xC2, CHR 0x85], [CHR 0xC2, CHR 0xA0], [CHR 0xE1, CHR 0x9A, CHR 0x80],
      [CHR 0xE2, CHR 0x80, CHR 0x80], [CHR 0xE2, CHR 0x80, CHR 0x81],
      [CHR 0xE2, CHR 0x80, CHR 0x82], [CHR 0xE2, CHR 0x80, CHR 0x83],
      [CHR 0xE2, CHR 0x80, CHR 0x84], [CHR 0xE2, CHR 0x80, CHR 0x85],
      [CHR 0xE2, CHR 0x80, CHR 0x86], [CHR 0xE2, CHR 0x80, CHR 0x87],
      [CHR 0xE2, CHR 0x80, CHR 0x88], [CHR 0xE2, CHR 0x80, CHR 0x89],
      [CHR 0xE2, CHR 0x80, CHR 0x8A], [CHR 0xE2, CHR 0x80, CHR 0xA8],
      [CHR 0xE2, CHR 0x80, CHR 0xA9], [CHR 0xE2, CHR 0x80, CHR 0xAF],
      [CHR 0xE2, CHR 0x81, CHR 0x9F], [CHR 0xE3, CHR 0x80, CHR 0x80]]"

lemma find_Some_holds: "find P xs = Some x \<Longrightarrow> P x \<and> x \<in> set xs"
  by (induction xs) (auto split: if_splits)

lemma startswith_drop_shorter:
  "w \<noteq> [] \<Longrightarrow> startswith s w \<Longrightarrow> length s - length w < length s"
  by (cases w; cases s) auto

text \<open>
  \<open>strip_prefixes ws s\<close> removes from the front of \<open>s\<close> one member of \<open>ws\<close> after
  the other, as long as one is there.
\<close>

function strip_prefixes :: "string list \<Rightarrow> string \<Rightarrow> string" where
  "strip_prefixes ws s =
     (case find (\<lambda>w. w \<noteq> [] \<and> startswith s w) ws of
        None \<Rightarrow> s
      | Some w \<Rightarrow> strip_prefixes ws (drop (length w) s))"
  by pat_completeness auto
termination
  by (relation "measure (\<lambda>(ws, s). length s)")
     (auto dest!: find_Some_holds simp: startswith_drop_shorter)

declare strip_prefixes.simps [simp del]

text \<open>
  \<^verbatim>\<open>s.strip()\<close>: the white space removed at both ends, at the end by the same removal on
  the reversed bytes.
\<close>

definition strip :: "string \<Rightarrow> string" where
  "strip s = rev (strip_prefixes (map rev whitespace) (rev (strip_prefixes whitespace s)))"

text \<open>The upper case of a code point below 128: the letters a to z change.\<close>

definition upper_char :: "char \<Rightarrow> char" where
  "upper_char c =
     (case map_of (zip ''abcdefghijklmnopqrstuvwxyz'' ''ABCDEFGHIJKLMNOPQRSTUVWXYZ'') c of
        Some u \<Rightarrow> u
      | None \<Rightarrow> c)"

text \<open>
  The code points from 128 on whose upper case, as \<^verbatim>\<open>str.upper\<close> gives it, has a code
  point below 128 in it, each with that upper case, in UTF-8: U+00DF (SS), U+0131 (I),
  U+0149, U+017F (S), U+01F0, U+1E96 to U+1E9A, and the ligatures U+FB00 to U+FB06
  (FF, FI, FL, FFI, FFL, ST, ST).
\<close>

definition special_upper :: "(string \<times> string) list" where
  "special_upper =
     [([CHR 0xC3, CHR 0x9F], ''SS''),
      ([CHR 0xC4, CHR 0xB1], ''I''),
      ([CHR 0xC5, CHR 0x89], [CHR 0xCA, CHR 0xBC, CHR ''N'']),
      ([CHR 0xC5, CHR 0xBF], ''S''),
      ([CHR 0xC7, CHR 0xB0], [CHR ''J'', CHR 0xCC, CHR 0x8C]),
      ([CHR 0xE1, CHR 0xBA, CHR 0x96], [CHR ''H'', CHR 0xCC, CHR 0xB1]),
      ([CHR 0xE1, CHR 0xBA, CHR 0x97], [CHR ''T'', CHR 0xCC, CHR 0x88]),
      ([CHR 0xE1, CHR 0xBA, CHR 0x98], [CHR ''W'', CHR 0xCC, CHR 0x8A]),
      ([CHR 0xE1, CHR 0xBA, CHR 0x99], [CHR ''Y'', CHR 0xCC, CHR 0x8A]),
      ([CHR 0xE1, CHR 0xBA, CHR 0x9A], [CHR ''A'', CHR 0xCA, CHR 0xBE]),
      ([CHR 0xEF, CHR 0xAC, CHR 0x80], ''FF''),
      ([CHR 0xEF, CHR 0xAC, CHR 0x81], ''FI''),
      ([CHR 0xEF, CHR 0xAC, CHR 0x82], ''FL''),
      ([CHR 0xEF, CHR 0xAC, CHR 0x83], ''FFI''),
      ([CHR 0xEF, CHR 0xAC, CHR 0x84], ''FFL''),
      ([CHR 0xEF, CHR 0xAC, CHR 0x85], ''ST''),
      ([CHR 0xEF, CHR 0xAC, CHR 0x86], ''ST'')]"

text \<open>
  \<^verbatim>\<open>s.upper()\<close>, code point by code point: a code point of the table gives its entry, a
  byte below 128 its capital. Every other code point has an upper case made of code points
  from 128 on only; its bytes are kept as they are here. The program never returns an
  upper-cased text: it compares one with \<^verbatim>\<open>"VALID"\<close> (line 95) and tests one for a
  keyword at its start (lines 103 and 110), and a byte from 128 on differs from every
  byte of those words, whichever it is.
\<close>

function upper :: "string \<Rightarrow> string" where
  "upper [] = []"
| "upper (c # cs) =
     (case find (\<lambda>(k, v). k \<noteq> [] \<and> startswith (c # cs) k) special_upper of
        None \<Rightarrow> upper_char c # upper cs
      | Some (k, v) \<Rightarrow> v @ upper (drop (length k) (c # cs)))"
  by pat_completeness auto
termination
  by (relation "measure length")
     (auto dest!: find_Some_holds simp: startswith_drop_shorter)

declare upper.simps(2) [simp del]

text \<open>\<^verbatim>\<open>s.startswith((p1, ..., pn))\<close> with a tuple, and the \<^verbatim>\<open>any(...)\<close> of line 110.\<close>

definition startswith_any :: "string \<Rightarrow> string list \<Rightarrow> bool" where
  "startswith_any s ps = list_ex (startswith s) ps"

text \<open>\<^verbatim>\<open>sub in s\<close>.\<close>

fun contains :: "string \<Rightarrow> string \<Rightarrow> bool" where
  "contains sub [] = (sub = [])"
| "contains sub (c # cs) = (startswith (c # cs) sub \<or> contains sub cs)"

text \<open>
  \<^verbatim>\<open>s.partition(sep)\<close> restricted to the case that \<^verbatim>\<open>sep\<close> occurs: the text before the
  first (leftmost) occurrence and the text after it.
\<close>

fun partition_py :: "string \<Rightarrow> string \<Rightarrow> (string \<times> string) option" where
  "partition_py sep [] = (if sep = [] then Some ([], []) else None)"
| "partition_py sep (c # cs) =
     (if startswith (c # cs) sep then Some ([], drop (length sep) (c # cs))
      else map_option (\<lambda>(a, b). (c # a, b)) (partition_py sep cs))"

lemma partition_py_shorter:
  "partition_py sep s = Some (a, b) \<Longrightarrow> sep \<noteq> [] \<Longrightarrow> length b < length s"
proof (induction s arbitrary: a)
  case Nil
  then show ?case by simp
next
  case (Cons c cs)
  show ?case
  proof (cases "startswith (c # cs) sep")
    case True
    with Cons.prems show ?thesis by (cases sep) auto
  next
    case False
    with Cons.prems obtain a' where "partition_py sep cs = Some (a', b)"
      by auto
    with Cons.IH Cons.prems(2) show ?thesis by fastforce
  qed
qed

text \<open>
  \<^verbatim>\<open>s.split(sep)\<close>: the pieces between the non-overlapping occurrences of \<^verbatim>\<open>sep\<close>, found
  from left to right. Every call of the program passes a non-empty literal; Python raises
  \<^verbatim>\<open>ValueError\<close> on an empty separator, which no call can trigger, and the model returns
  the text unsplit there.
\<close>

function split_py :: "string \<Rightarrow> string \<Rightarrow> string list" where
  "split_py sep s =
     (if sep = [] then [s]
      else case partition_py sep s of
             None \<Rightarrow> [s]
           | Some (a, b) \<Rightarrow> a # split_py sep b)"
  by pat_completeness auto
termination
  by (relation "measure (\<lambda>(sep, s). length s)") (auto dest: partition_py_shorter)

declare split_py.simps [simp del]

text \<open>\<^verbatim>\<open>sep.join(xs)\<close>.\<close>

fun join :: "string \<Rightarrow> string list \<Rightarrow> string" where
  "join sep [] = []"
| "join sep [x] = x"
| "join sep (x # y # ys) = x @ sep @ join sep (y # ys)"

text \<open>\<^verbatim>\<open>xs[i]\<close>, which raises \<^verbatim>\<open>IndexError\<close> out of range: \<open>None\<close> here.\<close>

fun nth_py :: "'a list \<Rightarrow> nat \<Rightarrow> 'a option" where
  "nth_py [] i = None"
| "nth_py (x # xs) 0 = Some x"
| "nth_py (x # xs) (Suc i) = nth_py xs i"

section \<open>The SQL extractor\<close>

definition sql_tag :: string where
  "sql_tag = ''```sql''"

definition fence :: string where
  "fence = ''```''"

definition newline :: string where
  "newline = [CHR 0x0A]"

definition sql_keywords :: "string list" where
  "sql_keywords = [''SELECT'', ''WITH'', ''INSERT'', ''UPDATE'', ''DELETE'', ''CREATE'']"

definition stop_markers :: "string list" where
  "stop_markers = [''Explanation'', ''This query'']"

text \<open>
  The loop of lines 108 to 116, over the lines still to read, with the loop's two
  variables \<^verbatim>\<open>capturing\<close> and \<^verbatim>\<open>sql_lines\<close>; \<^verbatim>\<open>break\<close> returns the lines captured so far.
\<close>

fun scan_loop :: "string list \<Rightarrow> bool \<Rightarrow> string list \<Rightarrow> string list" where
  "scan_loop [] capturing sql_lines = sql_lines"
| "scan_loop (l # ls) capturing sql_lines =
     (let line = strip l in
      if \<not> capturing \<and> startswith_any (upper line) sql_keywords
      then scan_loop ls True (sql_lines @ [line])
      else if capturing
      then (if line = [] \<or> startswith_any line stop_markers
            then sql_lines
            else scan_loop ls capturing (sql_lines @ [line]))
      else scan_loop ls capturing sql_lines)"

text \<open>Lines 106 to 117: the line-scanning stage.\<close>

definition scan_lines :: "string \<Rightarrow> string option" where
  "scan_lines response =
     (let sql_lines = scan_loop (split_py newline response) False []
      in if sql_lines \<noteq> [] then Some (join newline sql_lines) else None)"

text \<open>
  \<^verbatim>\<open>extract_sql_from_response\<close>, lines 97 to 120. \<open>None\<close> is Python's \<^verbatim>\<open>None\<close>. An
  \<^verbatim>\<open>IndexError\<close> of a subscript is caught by the \<^verbatim>\<open>except\<close> of line 118, which returns
  \<^verbatim>\<open>None\<close> as well (after a message on the console).
\<close>

definition extract_sql_from_response :: "string \<Rightarrow> string option" where
  "extract_sql_from_response response =
     (if contains sql_tag response then
        (case nth_py (split_py sql_tag response) 1 of
           None \<Rightarrow> None
         | Some part \<Rightarrow>
             (case nth_py (split_py fence part) 0 of
                None \<Rightarrow> None
              | Some body \<Rightarrow> Some (strip body)))
      else if contains fence response then
        (case nth_py (split_py fence response) 1 of
           None \<Rightarrow> None
         | Some part \<Rightarrow>
             (let sql = strip part in
              if startswith_any (upper sql) sql_keywords then Some sql
              else scan_lines response))
      else scan_lines response)"

section \<open>The stages and the orchestrator\<close>

text \<open>
  An exception is modelled by its message, the text of \<^verbatim>\<open>str(e)\<close>. What a call gives its
  caller is a value of a sum type: \<open>Inl e\<close> when the exception \<open>e\<close> leaves the call,
  \<open>Inr v\<close> when the call returns \<open>v\<close>.
\<close>

type_synonym exn = string

text \<open>
  The external collaborators of one run. An agent's \<^verbatim>\<open>run\<close> either raises or gives a
  response, taken as the text that \<^verbatim>\<open>getattr(response, "content", str(response))\<close> reads
  from it; \<^verbatim>\<open>session.execute(text(sql)).fetchall()\<close> either raises or gives the list of
  rows; \<open>str_rows\<close> is Python's \<^verbatim>\<open>str\<close> of such a list. The schema text of lines 13 to 44
  is a parameter here: no stage inspects it.
\<close>

record 'r world =
  schema_info :: string
  validation_agent :: "string \<Rightarrow> exn + string"
  query_agent :: "string \<Rightarrow> exn + string"
  summarizer_agent :: "string \<Rightarrow> exn + string"
  session_execute :: "string \<Rightarrow> exn + 'r list"
  str_rows :: "'r list \<Rightarrow> string"

text \<open>\<^verbatim>\<open>validate_prompt\<close>, lines 92 to 95: no \<^verbatim>\<open>try\<close> around the call.\<close>

definition validate_prompt :: "'r world \<Rightarrow> string \<Rightarrow> exn + bool" where
  "validate_prompt w prompt =
     (case validation_agent w prompt of
        Inl e \<Rightarrow> Inl e
      | Inr result \<Rightarrow> Inr (upper (strip result) = ''VALID''))"

text \<open>Python's truth value of an optional text: \<^verbatim>\<open>None\<close> and the empty text are false.\<close>

fun truthy :: "string option \<Rightarrow> bool" where
  "truthy None = False"
| "truthy (Some s) = (s \<noteq> [])"

text \<open>
  \<^verbatim>\<open>generate_sql\<close>, lines 122 to 129. The \<^verbatim>\<open>except\<close> of line 128 turns an exception of
  the call into the second component of the pair.
\<close>

definition generate_sql :: "'r world \<Rightarrow> string \<Rightarrow> exn + (string option \<times> string option)" where
  "generate_sql w prompt =
     (case query_agent w
             (prompt @ newline @ newline @ ''Schema:'' @ newline @ schema_info w) of
        Inl e \<Rightarrow> Inr (None, Some (''SQL generation failed: '' @ e))
      | Inr response \<Rightarrow>
          (let sql = extract_sql_from_response response
           in Inr (sql, if \<not> truthy sql then Some response else None)))"

text \<open>The result of \<^verbatim>\<open>execute_query\<close>: the list of rows, or a text.\<close>

datatype 'r query_result = Rows "'r list" | Message string

definition check_mark :: string where
  "check_mark = [CHR 0xE2, CHR 0x9C, CHR 0x85]"

definition cross_mark :: string where
  "cross_mark = [CHR 0xE2, CHR 0x9D, CHR 0x8C]"

definition warning_sign :: string where
  "warning_sign = [CHR 0xE2, CHR 0x9A, CHR 0xA0, CHR 0xEF, CHR 0xB8, CHR 0x8F]"

definition no_rows_message :: string where
  "no_rows_message = check_mark @ '' Query ran but returned no rows.''"

definition execution_error :: "exn \<Rightarrow> string" where
  "execution_error e = cross_mark @ '' SQL execution error: '' @ e"

text \<open>\<^verbatim>\<open>execute_query\<close>, lines 131 to 136.\<close>

definition execute_query :: "'r world \<Rightarrow> string \<Rightarrow> exn + 'r query_result" where
  "execute_query w sql =
     (case session_execute w sql of
        Inr result \<Rightarrow> Inr (if result \<noteq> [] then Rows result else Message no_rows_message)
      | Inl e \<Rightarrow> Inr (Message (execution_error e)))"

text \<open>\<^verbatim>\<open>str(results)\<close>.\<close>

fun str_result :: "'r world \<Rightarrow> 'r query_result \<Rightarrow> string" where
  "str_result w (Rows rs) = str_rows w rs"
| "str_result w (Message m) = m"

definition summary_prompt :: "'r world \<Rightarrow> string \<Rightarrow> 'r query_result \<Rightarrow> string" where
  "summary_prompt w prompt results =
     ''User question: '' @ prompt @ newline @ newline @
     ''Query result: '' @ str_result w results @ newline @ newline @
     ''Based on the schema provided earlier, summarize this result in a helpful way.''"

text \<open>\<^verbatim>\<open>summarize_result\<close>, lines 138 to 150.\<close>

definition summarize_result :: "'r world \<Rightarrow> string \<Rightarrow> 'r query_result \<Rightarrow> exn + string" where
  "summarize_result w prompt results =
     (case summarizer_agent w (summary_prompt w prompt results) of
        Inr response \<Rightarrow> Inr (strip response)
      | Inl e \<Rightarrow> Inr (cross_mark @ '' Summarization error: '' @ e))"

text \<open>
  What one run of the main block (lines 153 to 170) does, in order: the stage calls, the
  texts printed, the release of the session, and an exception that nothing catches, which
  ends the run where it is raised.
\<close>

datatype 'r event =
    Validate_call string
  | Generate_call string
  | Execute_call string
  | Summarize_call string "'r query_result"
  | Print string
  | Session_close
  | Uncaught exn

text \<open>Lines 167 and 168.\<close>

definition no_sql_branch :: "string option \<Rightarrow> 'r event list" where
  "no_sql_branch fallback =
     [Print (newline @ warning_sign @ '' Could not extract SQL. Here is the agent's response:''
               @ newline),
      Print (if truthy fallback then the fallback else ''No response.''),
      Session_close]"

definition main :: "'r world \<Rightarrow> string \<Rightarrow> 'r event list" where
  "main w user_prompt =
     Validate_call user_prompt #
     (case validate_prompt w user_prompt of
        Inl e \<Rightarrow> [Uncaught e]
      | Inr valid \<Rightarrow>
          if \<not> valid then
            [Print (warning_sign @ '' Your prompt is not related to the flight booking system.''),
             Session_close]
          else
            Generate_call user_prompt #
            (case generate_sql w user_prompt of
               Inl e \<Rightarrow> [Uncaught e]
             | Inr (sql_query, fallback) \<Rightarrow>
                 if truthy sql_query then
                   (let sql = the sql_query in
                    Print (newline @ check_mark @ '' Generated SQL:'' @ newline @ sql) #
                    Execute_call sql #
                    (case execute_query w sql of
                       Inl e \<Rightarrow> [Uncaught e]
                     | Inr results \<Rightarrow>
                         Print (newline @ [CHR 0xF0, CHR 0x9F, CHR 0x93, CHR 0x8A]
                                  @ '' Query Results:'' @ newline @ str_result w results) #
                         Summarize_call user_prompt results #
                         (case summarize_result w user_prompt results of
                            Inl e \<Rightarrow> [Uncaught e]
                          | Inr summary \<Rightarrow>
                              [Print (newline @ [CHR 0xF0, CHR 0x9F, CHR 0x93, CHR 0x9D]
                                        @ '' Summary:'' @ newline @ summary),
                               Session_close])))
                 else no_sql_branch fallback))"

section \<open>Notions used to state the properties\<close>

text \<open>
  A text that reads \<^verbatim>\<open>VALID\<close> when the case of its letters is ignored: five characters,
  each the capital or the small letter.
\<close>

definition valid_ignoring_case :: "string \<Rightarrow> bool" where
  "valid_ignoring_case s \<longleftrightarrow>
     (\<exists>v a l i d. s = [v, a, l, i, d]
        \<and> (v = CHR ''V'' \<or> v = CHR ''v'') \<and> (a = CHR ''A'' \<or> a = CHR ''a'')
        \<and> (l = CHR ''L'' \<or> l = CHR ''l'') \<and> (i = CHR ''I'' \<or> i = CHR ''i'')
        \<and> (d = CHR ''D'' \<or> d = CHR ''d''))"

text \<open>
  The small dotless i, U+0131, in UTF-8, and a text that reads \<^verbatim>\<open>VALID\<close> with that letter
  in the place of the I, the case of the other four letters ignored.
\<close>

definition dotless_i :: string where
  "dotless_i = [CHR 0xC4, CHR 0xB1]"

definition valid_with_dotless_i :: "string \<Rightarrow> bool" where
  "valid_with_dotless_i s \<longleftrightarrow>
     (\<exists>v a l d. s = [v, a, l] @ dotless_i @ [d]
        \<and> (v = CHR ''V'' \<or> v = CHR ''v'') \<and> (a = CHR ''A'' \<or> a = CHR ''a'')
        \<and> (l = CHR ''L'' \<or> l = CHR ''l'') \<and> (d = CHR ''D'' \<or> d = CHR ''d''))"

text \<open>
  The stage calls among the events of a run, in order.
\<close>

fun is_stage_call :: "'r event \<Rightarrow> bool" where
  "is_stage_call (Validate_call p) = True"
| "is_stage_call (Generate_call p) = True"
| "is_stage_call (Execute_call sql) = True"
| "is_stage_call (Summarize_call p r) = True"
| "is_stage_call (Print t) = False"
| "is_stage_call Session_close = False"
| "is_stage_call (Uncaught e) = False"

definition stage_calls :: "'r event list \<Rightarrow> 'r event list" where
  "stage_calls evs = filter is_stage_call evs"

text \<open>
  One concrete set of collaborators, for the examples: the validator answers
  \<^verbatim>\<open>" valid \n"\<close>, the generator answers a fenced statement that names a column the
  database does not have, and the database raises.
\<close>

definition sample_world :: "string list world" where
  "sample_world =
     \<lparr>schema_info = ''Flights(flight_id, source)'',
      validation_agent = (\<lambda>p. Inr ('' valid '' @ newline)),
      query_agent =
        (\<lambda>p. Inr (''```sql'' @ newline @ ''SELECT nope FROM Flights;'' @ newline @ ''```'')),
      summarizer_agent = (\<lambda>p. Inr ''The query failed.''),
      session_execute = (\<lambda>sql. Inl ''no such column: nope''),
      str_rows = (\<lambda>rows. ''[...]'')\<rparr>"

text \<open>
  A line led by a statement keyword: its upper-cased form starts with one of the six
  keywords. A line that ends the capture: an empty one, or one that starts with one of the
  two markers. Both are read on trimmed lines.
\<close>

definition keyword_led :: "string \<Rightarrow> bool" where
  "keyword_led line = startswith_any (upper line) sql_keywords"

definition stop_line :: "string \<Rightarrow> bool" where
  "stop_line line \<longleftrightarrow> line = [] \<or> startswith_any line stop_markers"

text \<open>
  The run of lines that the claims describe: from the first line led by a keyword, that
  line and the lines after it up to (not including) the first line that ends the capture.
\<close>

definition first_run :: "string list \<Rightarrow> string list" where
  "first_run lines =
     (case dropWhile (\<lambda>l. \<not> keyword_led l) lines of
        [] \<Rightarrow> []
      | l # rest \<Rightarrow> l # takeWhile (\<lambda>x. \<not> stop_line x) rest)"

text \<open>A response without a fence: prose, an indented statement of two lines, a marker line.\<close>

definition prose_then_sql :: string where
  "prose_then_sql =
     ''Here you go:'' @ newline @ ''  select a'' @ newline @ ''FROM t;'' @ newline
       @ ''Explanation: all rows'' @ newline @ ''SELECT 2''"

section \<open>Facts about the text primitives\<close>

lemma startswith_iff: "startswith s p \<longleftrightarrow> (\<exists>t. s = p @ t)"
  by (induction s p rule: startswith.induct) auto

lemma startswith_append [simp]: "startswith (p @ t) p"
  by (simp add: startswith_iff)

lemma contains_iff: "contains sub s \<longleftrightarrow> (\<exists>a b. s = a @ sub @ b)"
proof (induction s)
  case Nil
  then show ?case by auto
next
  case (Cons c cs)
  show ?case
  proof
    assume "contains sub (c # cs)"
    then consider "startswith (c # cs) sub" | "contains sub cs" by auto
    then show "\<exists>a b. c # cs = a @ sub @ b"
    proof cases
      case 1
      then obtain t where "c # cs = sub @ t" by (auto simp: startswith_iff)
      then have "c # cs = [] @ sub @ t" by simp
      then show ?thesis by blast
    next
      case 2
      with Cons.IH obtain a b where "cs = a @ sub @ b" by blast
      then have "c # cs = (c # a) @ sub @ b" by simp
      then show ?thesis by blast
    qed
  next
    assume "\<exists>a b. c # cs = a @ sub @ b"
    then obtain a b where ab: "c # cs = a @ sub @ b" by blast
    show "contains sub (c # cs)"
    proof (cases a)
      case Nil
      with ab have "startswith (c # cs) sub" by (simp add: startswith_iff)
      then show ?thesis by simp
    next
      case (Cons x a')
      with ab have "cs = a' @ sub @ b" by simp
      with Cons.IH have "contains sub cs" by blast
      then show ?thesis by simp
    qed
  qed
qed

lemma partition_py_None: "partition_py sep s = None \<longleftrightarrow> \<not> contains sep s"
  by (induction s) auto

lemma partition_py_Some_decomp:
  "partition_py sep s = Some (a, b) \<Longrightarrow> s = a @ sep @ b"
proof (induction s arbitrary: a)
  case Nil
  then show ?case by (auto split: if_splits)
next
  case (Cons c cs)
  show ?case
  proof (cases "startswith (c # cs) sep")
    case True
    then obtain t where t: "c # cs = sep @ t" by (auto simp: startswith_iff)
    from True Cons.prems have "a = []" and "b = drop (length sep) (c # cs)" by simp_all
    with t show ?thesis by simp
  next
    case False
    with Cons.prems obtain a' where "partition_py sep cs = Some (a', b)" "a = c # a'"
      by auto
    with Cons.IH show ?thesis by simp
  qed
qed

lemma startswith_shorter:
  "startswith (x @ y) p \<Longrightarrow> length p \<le> length x \<Longrightarrow> startswith x p"
  by (auto simp: startswith_iff append_eq_append_conv2)

lemma partition_py_first:
  assumes "sep \<noteq> []" and "\<not> contains sep (a @ butlast sep)"
  shows "partition_py sep (a @ sep @ b) = Some (a, b)"
  using assms(2)
proof (induction a)
  case Nil
  from assms(1) obtain x xs where "sep = x # xs" by (cases sep) auto
  then show ?case using startswith_append [of sep b] by simp
next
  case (Cons c a)
  from assms(1) obtain ys y where sep: "sep = ys @ [y]"
    by (cases sep rule: rev_cases) auto
  have "\<not> startswith ((c # a) @ sep @ b) sep"
  proof
    assume "startswith ((c # a) @ sep @ b) sep"
    then have "startswith (((c # a) @ ys) @ (y # b)) sep"
      by (simp add: sep)
    moreover have "length sep \<le> length ((c # a) @ ys)"
      by (simp add: sep)
    ultimately have "startswith ((c # a) @ ys) sep"
      by (rule startswith_shorter)
    then have "contains sep ((c # a) @ butlast sep)" by (simp add: sep)
    with Cons.prems show False by simp
  qed
  moreover from Cons.prems have "\<not> contains sep (a @ butlast sep)" by simp
  ultimately show ?case using Cons.IH by simp
qed

lemma split_py_no_sep: "\<not> contains sep s \<Longrightarrow> split_py sep s = [s]"
  by (simp add: split_py.simps partition_py_None [symmetric])

lemma split_py_first:
  "sep \<noteq> [] \<Longrightarrow> \<not> contains sep (a @ butlast sep) \<Longrightarrow>
   split_py sep (a @ sep @ b) = a # split_py sep b"
  by (simp add: split_py.simps [of sep "a @ sep @ b"] partition_py_first)

section \<open>The validation verdict\<close>

lemma upper_Nil_iff: "upper s = [] \<longleftrightarrow> s = []"
proof (cases s)
  case Nil
  then show ?thesis by simp
next
  case (Cons c cs)
  show ?thesis
  proof (cases "find (\<lambda>(k, v). k \<noteq> [] \<and> startswith (c # cs) k) special_upper")
    case None
    then show ?thesis by (simp add: Cons upper.simps(2))
  next
    case (Some kv)
    obtain k v where kv: "kv = (k, v)" by (cases kv)
    from Some have "kv \<in> set special_upper" by (auto dest: find_Some_holds)
    then have "v \<noteq> []" unfolding kv by (auto simp: special_upper_def)
    then show ?thesis by (simp add: Cons upper.simps(2) Some kv)
  qed
qed

lemma upper_head:
  assumes "upper s = x # r"
  shows "(\<exists>c cs. s = c # cs \<and> upper_char c = x \<and> upper cs = r) \<or>
         (\<exists>k v cs. (k, v) \<in> set special_upper \<and> s = k @ cs \<and> x # r = v @ upper cs)"
proof (cases s)
  case Nil
  with assms show ?thesis by simp
next
  case (Cons c cs)
  show ?thesis
  proof (cases "find (\<lambda>(k, v). k \<noteq> [] \<and> startswith (c # cs) k) special_upper")
    case None
    with assms show ?thesis by (simp add: Cons upper.simps(2))
  next
    case (Some kv)
    obtain k v where kv: "kv = (k, v)" by (cases kv)
    from Some have m: "(k, v) \<in> set special_upper" and "startswith (c # cs) k"
      unfolding kv by (auto dest: find_Some_holds)
    then obtain t where t: "c # cs = k @ t" by (auto simp: startswith_iff)
    have "upper (c # cs) = v @ upper (drop (length k) (c # cs))"
      by (simp add: upper.simps(2) Some kv)
    also have "drop (length k) (c # cs) = t" unfolding t by simp
    finally have "x # r = v @ upper t" using assms Cons by simp
    with m t Cons show ?thesis by blast
  qed
qed

lemma special_upper_not_VLD:
  "(k, v) \<in> set special_upper \<Longrightarrow> x # r = v @ u \<Longrightarrow>
     x \<noteq> CHR ''V'' \<and> x \<noteq> CHR ''L'' \<and> x \<noteq> CHR ''D''"
  by (auto simp: special_upper_def)

lemma special_upper_not_AL:
  "(k, v) \<in> set special_upper \<Longrightarrow> CHR ''A'' # CHR ''L'' # r \<noteq> v @ u"
  by (auto simp: special_upper_def)

lemma special_upper_I:
  "(k, v) \<in> set special_upper \<Longrightarrow> CHR ''I'' # r = v @ u \<Longrightarrow> k = dotless_i \<and> u = r"
  by (auto simp: special_upper_def dotless_i_def)

lemma upper_char_V: "upper_char c = CHR ''V'' \<longleftrightarrow> c = CHR ''V'' \<or> c = CHR ''v''"
  by (simp add: upper_char_def)
lemma upper_char_A: "upper_char c = CHR ''A'' \<longleftrightarrow> c = CHR ''A'' \<or> c = CHR ''a''"
  by (simp add: upper_char_def)
lemma upper_char_L: "upper_char c = CHR ''L'' \<longleftrightarrow> c = CHR ''L'' \<or> c = CHR ''l''"
  by (simp add: upper_char_def)
lemma upper_char_I: "upper_char c = CHR ''I'' \<longleftrightarrow> c = CHR ''I'' \<or> c = CHR ''i''"
  by (simp add: upper_char_def)
lemma upper_char_D: "upper_char c = CHR ''D'' \<longleftrightarrow> c = CHR ''D'' \<or> c = CHR ''d''"
  by (simp add: upper_char_def)

lemma upper_head_V:
  assumes "upper s = CHR ''V'' # r"
  shows "\<exists>c cs. s = c # cs \<and> (c = CHR ''V'' \<or> c = CHR ''v'') \<and> upper cs = r"
  using upper_head [OF assms] special_upper_not_VLD [of _ _ "CHR ''V''" r]
  unfolding upper_char_V by blast

lemma upper_head_A:
  assumes "upper s = CHR ''A'' # CHR ''L'' # r"
  shows "\<exists>c cs. s = c # cs \<and> (c = CHR ''A'' \<or> c = CHR ''a'') \<and> upper cs = CHR ''L'' # r"
  using upper_head [OF assms] special_upper_not_AL [of _ _ r]
  unfolding upper_char_A by blast

lemma upper_head_L:
  assumes "upper s = CHR ''L'' # r"
  shows "\<exists>c cs. s = c # cs \<and> (c = CHR ''L'' \<or> c = CHR ''l'') \<and> upper cs = r"
  using upper_head [OF assms] special_upper_not_VLD [of _ _ "CHR ''L''" r]
  unfolding upper_char_L by blast

lemma upper_head_D:
  assumes "upper s = CHR ''D'' # r"
  shows "\<exists>c cs. s = c # cs \<and> (c = CHR ''D'' \<or> c = CHR ''d'') \<and> upper cs = r"
  using upper_head [OF assms] special_upper_not_VLD [of _ _ "CHR ''D''" r]
  unfolding upper_char_D by blast

lemma upper_head_I:
  assumes "upper s = CHR ''I'' # r"
  shows "(\<exists>c cs. s = c # cs \<and> (c = CHR ''I'' \<or> c = CHR ''i'') \<and> upper cs = r) \<or>
         (\<exists>cs. s = dotless_i @ cs \<and> upper cs = r)"
  using upper_head [OF assms] special_upper_I [of _ _ r]
  unfolding upper_char_I by blast

lemma upper_plain:
  "c \<notin> set [CHR 0xC3, CHR 0xC4, CHR 0xC5, CHR 0xC7, CHR 0xE1, CHR 0xEF] \<Longrightarrow>
     upper (c # cs) = upper_char c # upper cs"
  by (simp add: upper.simps(2) special_upper_def)

lemma upper_dotless_i: "upper (dotless_i @ cs) = CHR ''I'' # upper cs"
  by (simp add: dotless_i_def upper.simps(2) special_upper_def)

lemma upper_Cons_V:
  "c = CHR ''V'' \<or> c = CHR ''v'' \<Longrightarrow> upper (c # cs) = CHR ''V'' # upper cs"
  by (auto simp: upper_plain upper_char_def)
lemma upper_Cons_A:
  "c = CHR ''A'' \<or> c = CHR ''a'' \<Longrightarrow> upper (c # cs) = CHR ''A'' # upper cs"
  by (auto simp: upper_plain upper_char_def)
lemma upper_Cons_L:
  "c = CHR ''L'' \<or> c = CHR ''l'' \<Longrightarrow> upper (c # cs) = CHR ''L'' # upper cs"
  by (auto simp: upper_plain upper_char_def)
lemma upper_Cons_I:
  "c = CHR ''I'' \<or> c = CHR ''i'' \<Longrightarrow> upper (c # cs) = CHR ''I'' # upper cs"
  by (auto simp: upper_plain upper_char_def)
lemma upper_Cons_D:
  "c = CHR ''D'' \<or> c = CHR ''d'' \<Longrightarrow> upper (c # cs) = CHR ''D'' # upper cs"
  by (auto simp: upper_plain upper_char_def)

lemma upper_VALID:
  "upper s = ''VALID'' \<longleftrightarrow> valid_ignoring_case s \<or> valid_with_dotless_i s"
proof
  assume "upper s = ''VALID''"
  from upper_head_V [OF this] obtain v s1
    where s: "s = v # s1" and v: "v = CHR ''V'' \<or> v = CHR ''v''" and u1: "upper s1 = ''ALID''"
    by blast
  from upper_head_A [OF u1] obtain a s2
    where s1: "s1 = a # s2" and a: "a = CHR ''A'' \<or> a = CHR ''a''" and u2: "upper s2 = ''LID''"
    by blast
  from upper_head_L [OF u2] obtain l s3
    where s2: "s2 = l # s3" and l: "l = CHR ''L'' \<or> l = CHR ''l''" and u3: "upper s3 = ''ID''"
    by blast
  have last: "\<exists>d. s4 = [d] \<and> (d = CHR ''D'' \<or> d = CHR ''d'')" if "upper s4 = ''D''" for s4
  proof -
    from upper_head_D [OF that] obtain d s5
      where "s4 = d # s5" and d: "d = CHR ''D'' \<or> d = CHR ''d''" and "upper s5 = []"
      by blast
    then have "s4 = [d]" by (simp add: upper_Nil_iff)
    with d show ?thesis by blast
  qed
  from upper_head_I [OF u3] consider
    (plain) i s4 where "s3 = i # s4" "i = CHR ''I'' \<or> i = CHR ''i''" "upper s4 = ''D''"
    | (dotless) s4 where "s3 = dotless_i @ s4" "upper s4 = ''D''"
    by blast
  then show "valid_ignoring_case s \<or> valid_with_dotless_i s"
  proof cases
    case plain
    note s3 = plain(1) and i = plain(2)
    from last [OF plain(3)] obtain d where "s4 = [d]" and d: "d = CHR ''D'' \<or> d = CHR ''d''"
      by blast
    then have "s = [v, a, l, i, d]" by (simp add: s s1 s2 s3)
    with v a l i d have "valid_ignoring_case s"
      unfolding valid_ignoring_case_def by blast
    then show "valid_ignoring_case s \<or> valid_with_dotless_i s" ..
  next
    case dotless
    note s3 = dotless(1)
    from last [OF dotless(2)] obtain d where "s4 = [d]" and d: "d = CHR ''D'' \<or> d = CHR ''d''"
      by blast
    then have "s = [v, a, l] @ dotless_i @ [d]" by (simp add: s s1 s2 s3)
    with v a l d have "valid_with_dotless_i s"
      unfolding valid_with_dotless_i_def by blast
    then show "valid_ignoring_case s \<or> valid_with_dotless_i s" ..
  qed
next
  assume "valid_ignoring_case s \<or> valid_with_dotless_i s"
  then show "upper s = ''VALID''"
  proof
    assume "valid_ignoring_case s"
    then obtain v a l i d where "s = [v, a, l, i, d]"
      "v = CHR ''V'' \<or> v = CHR ''v''" "a = CHR ''A'' \<or> a = CHR ''a''"
      "l = CHR ''L'' \<or> l = CHR ''l''" "i = CHR ''I'' \<or> i = CHR ''i''"
      "d = CHR ''D'' \<or> d = CHR ''d''"
      unfolding valid_ignoring_case_def by blast
    then show ?thesis
      by (simp add: upper_Cons_V upper_Cons_A upper_Cons_L upper_Cons_I upper_Cons_D)
  next
    assume "valid_with_dotless_i s"
    then obtain v a l d where "s = [v, a, l] @ dotless_i @ [d]"
      "v = CHR ''V'' \<or> v = CHR ''v''" "a = CHR ''A'' \<or> a = CHR ''a''"
      "l = CHR ''L'' \<or> l = CHR ''l''" "d = CHR ''D'' \<or> d = CHR ''d''"
      unfolding valid_with_dotless_i_def by blast
    then show ?thesis
      by (simp add: upper_Cons_V upper_Cons_A upper_Cons_L upper_Cons_D upper_dotless_i)
  qed
qed

section \<open>The claims about the stages\<close>

text \<open>
  C5, amended. For a response of the validation agent whose content is a text,
  \<^verbatim>\<open>validate_prompt\<close> returns true if and only if the response, with the white space at
  both ends removed, reads \<^verbatim>\<open>VALID\<close> when case is ignored, or reads so with the small
  dotless i (U+0131) in the place of the I; every other response gives false. (The claim
  has the first alternative only; \<^verbatim>\<open>str.upper\<close> maps the dotless i to the capital I.)
\<close>

theorem validate_prompt_verdict:
  "validate_prompt (w\<lparr>validation_agent := \<lambda>p. Inr response\<rparr>) prompt =
     Inr (valid_ignoring_case (strip response) \<or> valid_with_dotless_i (strip response))"
  by (simp add: validate_prompt_def upper_VALID)

theorem validate_prompt_verdict_witness:
  "validate_prompt sample_world ''q'' = Inr True \<and>
   validate_prompt (sample_world\<lparr>validation_agent := \<lambda>p. Inr ''Valid''\<rparr>) ''q'' = Inr True \<and>
   validate_prompt (sample_world\<lparr>validation_agent := \<lambda>p. Inr ''INVALID''\<rparr>) ''q'' = Inr False \<and>
   validate_prompt (sample_world\<lparr>validation_agent := \<lambda>p. Inr ''maybe''\<rparr>) ''q'' = Inr False \<and>
   validate_prompt
     (sample_world\<lparr>validation_agent :=
        \<lambda>p. Inr ([CHR 0xC2, CHR 0xA0] @ ''VALID'' @ [CHR 0xE3, CHR 0x80, CHR 0x80])\<rparr>) ''q'' =
     Inr True"
proof -
  have s: "strip ('' valid '' @ newline) = ''valid''" "strip ''Valid'' = ''Valid''"
    "strip ''INVALID'' = ''INVALID''" "strip ''maybe'' = ''maybe''"
    "strip ([CHR 0xC2, CHR 0xA0] @ ''VALID'' @ [CHR 0xE3, CHR 0x80, CHR 0x80]) = ''VALID''"
    by code_simp+
  show ?thesis
    using
      validate_prompt_verdict
        [where w = sample_world and response = "'' valid '' @ newline" and prompt = "''q''"]
      validate_prompt_verdict
        [where w = sample_world and response = "''Valid''" and prompt = "''q''"]
      validate_prompt_verdict
        [where w = sample_world and response = "''INVALID''" and prompt = "''q''"]
      validate_prompt_verdict
        [where w = sample_world and response = "''maybe''" and prompt = "''q''"]
      validate_prompt_verdict
        [where w = sample_world
           and response = "[CHR 0xC2, CHR 0xA0] @ ''VALID'' @ [CHR 0xE3, CHR 0x80, CHR 0x80]"
           and prompt = "''q''"]
    unfolding s
    by (simp add: sample_world_def valid_ignoring_case_def valid_with_dotless_i_def dotless_i_def)
qed

text \<open>
  C5 as it is stated fails on a response with the small dotless i: the text \<^verbatim>\<open>val\<close>,
  U+0131, \<^verbatim>\<open>d\<close> is not \<^verbatim>\<open>VALID\<close> in another case (lower-casing and case folding keep
  the two letters i apart), and the verdict is true.
\<close>

theorem dotless_i_counterexample:
  "validate_prompt (sample_world\<lparr>validation_agent := \<lambda>p. Inr (''val'' @ dotless_i @ ''d'')\<rparr>) ''q'' =
     Inr True \<and>
   \<not> valid_ignoring_case (strip (''val'' @ dotless_i @ ''d''))"
proof -
  have "validate_prompt (sample_world\<lparr>validation_agent := \<lambda>p. Inr (''val'' @ dotless_i @ ''d'')\<rparr>) ''q'' =
     Inr True"
    by code_simp
  moreover have "strip (''val'' @ dotless_i @ ''d'') = ''val'' @ dotless_i @ ''d''"
    by code_simp
  ultimately show ?thesis
    by (simp add: valid_ignoring_case_def dotless_i_def)
qed

lemma marks_differ: "no_rows_message \<noteq> execution_error e"
  by (simp add: no_rows_message_def execution_error_def check_mark_def cross_mark_def)

text \<open>
  C6. For every SQL text, \<^verbatim>\<open>execute_query\<close> returns (it never raises) exactly one of three
  results: the rows, when there is at least one; the marker of a statement that ran and
  gave no row; or the description of the failure. The three are pairwise different values.
\<close>

theorem execute_query_outcomes:
  "(\<exists>rows. rows \<noteq> [] \<and> session_execute w sql = Inr rows
       \<and> execute_query w sql = Inr (Rows rows)
       \<and> Rows rows \<noteq> Message no_rows_message
       \<and> Rows rows \<noteq> Message (execution_error e'))
   \<or> (session_execute w sql = Inr []
       \<and> execute_query w sql = Inr (Message no_rows_message)
       \<and> Message no_rows_message \<noteq> Rows rows'
       \<and> Message no_rows_message \<noteq> Message (execution_error e'))
   \<or> (\<exists>e. session_execute w sql = Inl e
       \<and> execute_query w sql = Inr (Message (execution_error e))
       \<and> Message (execution_error e) \<noteq> Rows rows'
       \<and> Message (execution_error e) \<noteq> Message no_rows_message)"
proof (cases "session_execute w sql")
  case (Inl e)
  then show ?thesis using marks_differ [of e] by (simp add: execute_query_def)
next
  case (Inr rows)
  then show ?thesis using marks_differ [of e'] by (cases rows) (simp_all add: execute_query_def)
qed

theorem execute_query_outcomes_witness:
  "execute_query sample_world ''SELECT nope FROM Flights;'' =
     Inr (Message (execution_error ''no such column: nope'')) \<and>
   execute_query (sample_world\<lparr>session_execute := \<lambda>sql. Inr []\<rparr>) ''SELECT 1'' =
     Inr (Message no_rows_message) \<and>
   execute_query (sample_world\<lparr>session_execute := \<lambda>sql. Inr [[''JFK'']]\<rparr>) ''SELECT 1'' =
     Inr (Rows [[''JFK'']])"
  using
    execute_query_outcomes
      [where w = sample_world and sql = "''SELECT nope FROM Flights;''"]
    execute_query_outcomes
      [where w = "sample_world\<lparr>session_execute := \<lambda>sql. Inr []\<rparr>" and sql = "''SELECT 1''"]
    execute_query_outcomes
      [where w = "sample_world\<lparr>session_execute := \<lambda>sql. Inr [[''JFK'']]\<rparr>"
         and sql = "''SELECT 1''"]
  by (simp add: sample_world_def)

lemma generate_sql_returns: "\<exists>sql fallback. generate_sql w p = Inr (sql, fallback)"
  by (simp add: generate_sql_def Let_def split: sum.split)

lemma execute_query_returns: "\<exists>results. execute_query w sql = Inr results"
  by (simp add: execute_query_def split: sum.split)

lemma summarize_result_returns: "\<exists>summary. summarize_result w p results = Inr summary"
  by (simp add: summarize_result_def split: sum.split)

text \<open>
  C7. Whenever a run of the main block executes a statement, the stage called next is the
  summarization, with the result of the execution as its argument, and the run ends by
  closing the session; the stages of such a run are validation, generation, execution and
  summarization, in this order. When the execution failed, the result passed on is the
  description of the failure.
\<close>

theorem execution_then_summarization:
  assumes "Execute_call sql \<in> set (main w p)"
  shows "\<exists>results summary.
           execute_query w sql = Inr results \<and>
           summarize_result w p results = Inr summary \<and>
           stage_calls (main w p) =
             [Validate_call p, Generate_call p, Execute_call sql, Summarize_call p results] \<and>
           last (main w p) = Session_close \<and>
           (\<forall>e. session_execute w sql = Inl e \<longrightarrow> results = Message (execution_error e))"
proof -
  obtain results where r: "execute_query w sql = Inr results"
    using execute_query_returns by blast
  obtain summary where s: "summarize_result w p results = Inr summary"
    using summarize_result_returns by blast
  obtain q fb where g: "generate_sql w p = Inr (q, fb)"
    using generate_sql_returns by blast
  from assms g have v: "validate_prompt w p = Inr True" and t: "truthy q" and q: "the q = sql"
    by (auto simp: main_def no_sql_branch_def Let_def split: sum.splits if_splits)
  have "stage_calls (main w p) =
          [Validate_call p, Generate_call p, Execute_call sql, Summarize_call p results]"
    using v t q g r s by (simp add: main_def stage_calls_def Let_def)
  moreover have "last (main w p) = Session_close"
    using v t q g r s by (simp add: main_def Let_def)
  moreover have "\<forall>e. session_execute w sql = Inl e \<longrightarrow> results = Message (execution_error e)"
    using r by (auto simp: execute_query_def)
  ultimately show ?thesis using r s by blast
qed

theorem execution_then_summarization_witness:
  "Execute_call ''SELECT nope FROM Flights;'' \<in> set (main sample_world ''Which flights?'') \<and>
   stage_calls (main sample_world ''Which flights?'') =
     [Validate_call ''Which flights?'', Generate_call ''Which flights?'',
      Execute_call ''SELECT nope FROM Flights;'',
      Summarize_call ''Which flights?'' (Message (execution_error ''no such column: nope''))] \<and>
   last (main sample_world ''Which flights?'') = Session_close"
proof -
  have ex: "extract_sql_from_response
          (''```sql'' @ newline @ ''SELECT nope FROM Flights;'' @ newline @ ''```'') =
        Some ''SELECT nope FROM Flights;''"
    by code_simp
  have v: "validate_prompt sample_world ''Which flights?'' = Inr True"
    by code_simp
  have m: "Execute_call ''SELECT nope FROM Flights;'' \<in> set (main sample_world ''Which flights?'')"
    using ex v by (simp add: main_def generate_sql_def sample_world_def Let_def execute_query_def summarize_result_def)
  from execution_then_summarization [OF m] show ?thesis
    using m by (auto simp: execute_query_def sample_world_def)
qed

text \<open>
  C1. The claim: a failure of the external call of any stage is caught at the boundary of
  the stage and returned as a text. The program at a failing validation call:
  \<^verbatim>\<open>validate_prompt\<close> has no handler, the exception of the validation agent leaves the
  stage and ends the run right after the validation call; \<^verbatim>\<open>generate_sql\<close> and
  \<^verbatim>\<open>summarize_result\<close> turn the same failure of their agents into a text.
\<close>

theorem validation_failure_propagates:
  "validate_prompt (w\<lparr>validation_agent := \<lambda>p. Inl e\<rparr>) prompt = Inl e \<and>
   main (w\<lparr>validation_agent := \<lambda>p. Inl e\<rparr>) prompt = [Validate_call prompt, Uncaught e] \<and>
   generate_sql (w\<lparr>query_agent := \<lambda>p. Inl e\<rparr>) prompt =
     Inr (None, Some (''SQL generation failed: '' @ e)) \<and>
   summarize_result (w\<lparr>summarizer_agent := \<lambda>p. Inl e\<rparr>) prompt results =
     Inr (cross_mark @ '' Summarization error: '' @ e)"
  by (simp add: validate_prompt_def main_def generate_sql_def summarize_result_def)

section \<open>The line-scanning stage\<close>

lemma scan_loop_capturing:
  "scan_loop ls True acc = acc @ takeWhile (\<lambda>x. \<not> stop_line x) (map strip ls)"
  by (induction ls arbitrary: acc) (simp_all add: Let_def stop_line_def)

lemma first_run_Cons:
  "first_run (l # ls) =
     (if keyword_led l then l # takeWhile (\<lambda>x. \<not> stop_line x) ls else first_run ls)"
  by (simp add: first_run_def)

lemma scan_loop_searching:
  "scan_loop ls False acc = acc @ first_run (map strip ls)"
proof (induction ls arbitrary: acc)
  case Nil
  then show ?case by (simp add: first_run_def)
next
  case (Cons l ls)
  then show ?case
    by (simp add: Let_def first_run_Cons scan_loop_capturing keyword_led_def)
qed

lemma contains_tag_fence: "contains sql_tag s \<Longrightarrow> contains fence s"
proof -
  assume "contains sql_tag s"
  then obtain a b where "s = a @ sql_tag @ b" by (auto simp: contains_iff)
  then have "s = a @ fence @ (''sql'' @ b)" by (simp add: sql_tag_def fence_def)
  then show ?thesis unfolding contains_iff by blast
qed

lemma extract_no_fence:
  "\<not> contains fence r \<Longrightarrow> extract_sql_from_response r = scan_lines r"
  using contains_tag_fence [of r] by (auto simp: extract_sql_from_response_def)

lemma scan_lines_first_run:
  "scan_lines r =
     (let run = first_run (map strip (split_py newline r))
      in if run = [] then None else Some (join newline run))"
  by (simp add: scan_lines_def scan_loop_searching Let_def)

text \<open>
  C4. The line-scanning stage splits the text at newlines and trims every line. Capture
  begins at the first line whose upper-cased form starts with one of the six keywords and
  goes on until the first blank line or the first line that starts with
  \<^verbatim>\<open>Explanation\<close> or \<^verbatim>\<open>This query\<close>; the captured lines are joined with newline; when no
  line starts with a keyword the result is absent. A text without a fence reaches this
  stage.
\<close>

theorem line_scanning_stage:
  "scan_lines r =
     (let run = first_run (map strip (split_py newline r))
      in if run = [] then None else Some (join newline run)) \<and>
   (\<not> contains fence r \<longrightarrow> extract_sql_from_response r = scan_lines r)"
  using scan_lines_first_run extract_no_fence by blast

theorem line_scanning_stage_witness:
  "\<not> contains fence prose_then_sql \<and>
   extract_sql_from_response prose_then_sql = Some (''select a'' @ newline @ ''FROM t;'') \<and>
   scan_lines ''No statement here.'' = None"
proof -
  have nf: "\<not> contains fence prose_then_sql" by code_simp
  have sp: "split_py newline prose_then_sql =
      [''Here you go:'', ''  select a'', ''FROM t;'', ''Explanation: all rows'', ''SELECT 2'']"
    by code_simp
  have sp2: "split_py newline ''No statement here.'' = [''No statement here.'']"
    by code_simp
  have fr: "first_run (map strip [''Here you go:'', ''  select a'', ''FROM t;'', ''Explanation: all rows'', ''SELECT 2''])
     = [''select a'', ''FROM t;'']" by code_simp
  have fr2: "first_run (map strip [''No statement here.'']) = []" by code_simp
  have a: "scan_lines prose_then_sql = Some (join newline [''select a'', ''FROM t;''])"
    and b: "extract_sql_from_response prose_then_sql = scan_lines prose_then_sql"
    using line_scanning_stage [of prose_then_sql, unfolded sp fr] nf by simp_all
  have c: "scan_lines ''No statement here.'' = None"
    using line_scanning_stage [of "''No statement here.''", unfolded sp2 fr2] by simp
  show ?thesis using nf a b c by simp
qed

section \<open>The fenced stages\<close>

lemma butlast_sql_tag: "butlast sql_tag = ''```sq''"
  by (simp add: sql_tag_def)

lemma butlast_fence: "butlast fence = ''``''"
  by (simp add: fence_def)

lemma sql_tag_nonempty: "sql_tag \<noteq> []"
  by (simp add: sql_tag_def)

lemma fence_nonempty: "fence \<noteq> []"
  by (simp add: fence_def)

lemma contains_middle: "contains sep (a @ sep @ b)"
  unfolding contains_iff by blast

lemma keyword_led_nonempty: "keyword_led s \<Longrightarrow> s \<noteq> []"
  by (auto simp: keyword_led_def startswith_any_def sql_keywords_def)

lemma first_run_head: "first_run ls = l # xs \<Longrightarrow> keyword_led l"
proof -
  assume a: "first_run ls = l # xs"
  then obtain rest where d: "dropWhile (\<lambda>l. \<not> keyword_led l) ls = l # rest"
    by (auto simp: first_run_def split: list.splits)
  from hd_dropWhile [of "\<lambda>l. \<not> keyword_led l" ls] d show "keyword_led l" by simp
qed

lemma join_nonempty: "l \<noteq> [] \<Longrightarrow> join sep (l # xs) \<noteq> []"
  by (cases xs) simp_all

lemma scan_lines_nonempty: "scan_lines r \<noteq> Some []"
proof
  assume a: "scan_lines r = Some []"
  let ?run = "first_run (map strip (split_py newline r))"
  from a have ne: "?run \<noteq> []" and j: "join newline ?run = []"
    by (auto simp: scan_lines_first_run Let_def split: if_splits)
  from ne obtain l xs where lx: "?run = l # xs" by (cases ?run) auto
  then have "l \<noteq> []" using first_run_head keyword_led_nonempty by blast
  then have "join newline (l # xs) \<noteq> []" by (rule join_nonempty)
  with j lx show False by simp
qed

lemma extract_unclosed_tag:
  assumes "\<not> contains sql_tag (pre @ ''```sq'')" and "\<not> contains fence rest"
  shows "extract_sql_from_response (pre @ sql_tag @ rest) = Some (strip rest)"
proof -
  have nt: "\<not> contains sql_tag rest" using assms(2) contains_tag_fence by blast
  have "split_py sql_tag (pre @ sql_tag @ rest) = pre # split_py sql_tag rest"
    using assms(1) by (simp add: split_py_first sql_tag_nonempty butlast_sql_tag)
  then have s1: "split_py sql_tag (pre @ sql_tag @ rest) = [pre, rest]"
    using nt by (simp add: split_py_no_sep)
  have s2: "split_py fence rest = [rest]"
    using assms(2) by (simp add: split_py_no_sep)
  show ?thesis
    by (simp add: extract_sql_from_response_def contains_middle s1 s2)
qed

lemma extract_unclosed_fence:
  assumes "\<not> contains sql_tag (pre @ fence @ rest)"
    and "\<not> contains fence (pre @ ''``'')" and "\<not> contains fence rest"
    and "keyword_led (strip rest)"
  shows "extract_sql_from_response (pre @ fence @ rest) = Some (strip rest)"
proof -
  have "split_py fence (pre @ fence @ rest) = pre # split_py fence rest"
    using assms(2) by (simp add: split_py_first fence_nonempty butlast_fence)
  then have s1: "split_py fence (pre @ fence @ rest) = [pre, rest]"
    using assms(3) by (simp add: split_py_no_sep)
  show ?thesis
    using assms(1,4)
    by (simp add: extract_sql_from_response_def contains_middle s1 keyword_led_def)
qed




text \<open>
  C10. A closing fence is not required. When no fence follows the first SQL tag, the
  extractor returns the whole text after the tag, trimmed. When the text has no SQL tag and
  one fence only, and the text after the fence, trimmed and upper-cased, starts with a
  keyword, the extractor returns the whole text after the fence, trimmed.
\<close>

theorem unclosed_fences:
  "(\<not> contains sql_tag (pre @ ''```sq'') \<and> \<not> contains fence rest \<longrightarrow>
      extract_sql_from_response (pre @ sql_tag @ rest) = Some (strip rest)) \<and>
   (\<not> contains sql_tag (pre @ fence @ rest) \<and> \<not> contains fence (pre @ ''``'') \<and>
    \<not> contains fence rest \<and> keyword_led (strip rest) \<longrightarrow>
      extract_sql_from_response (pre @ fence @ rest) = Some (strip rest))"
  using extract_unclosed_tag extract_unclosed_fence by blast

theorem unclosed_fences_witness:
  "\<not> contains sql_tag (''Here: '' @ ''```sq'') \<and>
   \<not> contains fence (newline @ ''SELECT 1;'' @ newline) \<and>
   extract_sql_from_response (''Here: '' @ sql_tag @ newline @ ''SELECT 1;'' @ newline) =
     Some ''SELECT 1;'' \<and>
   \<not> contains sql_tag (''Here: '' @ fence @ newline @ ''select 1;'') \<and>
   \<not> contains fence (''Here: '' @ ''``'') \<and>
   \<not> contains fence (newline @ ''select 1;'') \<and>
   keyword_led (strip (newline @ ''select 1;'')) \<and>
   extract_sql_from_response (''Here: '' @ fence @ newline @ ''select 1;'') = Some ''select 1;''"
proof -
  have a1: "\<not> contains sql_tag (''Here: '' @ ''```sq'')" by code_simp
  have a2: "\<not> contains fence (newline @ ''SELECT 1;'' @ newline)" by code_simp
  have a3: "strip (newline @ ''SELECT 1;'' @ newline) = ''SELECT 1;''" by code_simp
  have b1: "\<not> contains sql_tag (''Here: '' @ fence @ newline @ ''select 1;'')" by code_simp
  have b2: "\<not> contains fence (''Here: '' @ ''``'')" by code_simp
  have b3: "\<not> contains fence (newline @ ''select 1;'')" by code_simp
  have b4: "keyword_led (strip (newline @ ''select 1;''))" by code_simp
  have b5: "strip (newline @ ''select 1;'') = ''select 1;''" by code_simp
  from unclosed_fences [of "''Here: ''" "newline @ ''SELECT 1;'' @ newline"] a1 a2 a3
  have "extract_sql_from_response (''Here: '' @ sql_tag @ newline @ ''SELECT 1;'' @ newline) =
     Some ''SELECT 1;''" by simp
  moreover from unclosed_fences [of "''Here: ''" "newline @ ''select 1;''"] b1 b2 b3 b4 b5
  have "extract_sql_from_response (''Here: '' @ fence @ newline @ ''select 1;'') =
     Some ''select 1;''" by simp
  ultimately show ?thesis using a1 a2 b1 b2 b3 b4 by blast
qed

text \<open>
  C8, amended. For a text without the SQL tag, the result of the extractor is absent or a
  non-empty text. (The claim says this of every text; for an SQL-tagged fence the result
  is the trimmed content, which can be empty.)
\<close>

theorem untagged_result_nonempty:
  assumes "\<not> contains sql_tag r"
  shows "extract_sql_from_response r \<noteq> Some []"
  using assms scan_lines_nonempty [of r] keyword_led_nonempty
  by (auto simp: extract_sql_from_response_def Let_def keyword_led_def split: option.splits)

theorem untagged_result_nonempty_witness:
  "\<not> contains sql_tag (fence @ newline @ fence) \<and>
   extract_sql_from_response (fence @ newline @ fence) \<noteq> Some []"
proof -
  have a: "\<not> contains sql_tag (fence @ newline @ fence)" by code_simp
  from untagged_result_nonempty [OF a] a show ?thesis by blast
qed

text \<open>
  C8 as it is stated fails on an SQL-tagged fence with empty content: the result is the
  empty text.
\<close>

theorem empty_tagged_fence_counterexample:
  "extract_sql_from_response ''```sql```'' = Some []"
  by code_simp

section \<open>The SQL-tagged fence\<close>

lemma split_py_head:
  "sep \<noteq> [] \<Longrightarrow>
   nth_py (split_py sep s) 0 = Some (case partition_py sep s of None \<Rightarrow> s | Some (a, b) \<Rightarrow> a)"
  by (subst split_py.simps) (simp split: option.split)

lemma contains_append_right: "contains sep x \<Longrightarrow> contains sep (x @ y)"
proof -
  assume "contains sep x"
  then obtain a b where "x = a @ sep @ b" by (auto simp: contains_iff)
  then have "x @ y = a @ sep @ (b @ y)" by simp
  then show ?thesis unfolding contains_iff by blast
qed

lemma no_fence_inside:
  assumes "\<not> contains fence (body @ ''``'')" and "body = a @ us" and "us \<noteq> []"
  shows "\<not> startswith (us @ fence @ t) fence"
proof
  assume "startswith (us @ fence @ t) fence"
  then have "startswith ((us @ ''``'') @ (''`'' @ t)) fence"
    by (simp add: fence_def)
  moreover have "length fence \<le> length (us @ ''``'')"
    using assms(3) by (cases us) (simp_all add: fence_def)
  ultimately have "startswith (us @ ''``'') fence" by (rule startswith_shorter)
  then obtain r where "us @ ''``'' = fence @ r" by (auto simp: startswith_iff)
  then have "body @ ''``'' = a @ fence @ r" using assms(2) by simp
  then have "contains fence (body @ ''``'')" unfolding contains_iff by blast
  with assms(1) show False by simp
qed

lemma head_before_fence:
  assumes nf: "\<not> contains fence (body @ ''``'')"
    and p1: "\<not> startswith post ''`sql''" and p2: "\<not> startswith post ''``sql''"
    and part: "partition_py sql_tag (body @ fence @ post) = Some (a, b)"
  shows "nth_py (split_py fence a) 0 = Some body"
proof -
  have nfb: "\<not> contains fence body" using nf contains_append_right by blast
  from partition_py_Some_decomp [OF part]
  have eq: "body @ (fence @ post) = a @ (sql_tag @ b)" by simp
  from append_eq_append_conv2 [THEN iffD1, OF eq]
  consider us where "body = a @ us" "us @ fence @ post = sql_tag @ b"
    | us where "body @ us = a" "fence @ post = us @ sql_tag @ b"
    by blast
  then show ?thesis
  proof cases
    case 1
    have "us = []"
    proof (rule ccontr)
      assume ne: "us \<noteq> []"
      from 1(2) have "startswith (us @ fence @ post) fence"
        by (simp add: startswith_iff sql_tag_def fence_def)
      with no_fence_inside [OF nf 1(1) ne] show False by simp
    qed
    with 1(1) have "a = body" by simp
    with nfb show ?thesis by (simp add: split_py_head fence_nonempty partition_py_None [THEN iffD2])
  next
    case 2
    show ?thesis
    proof (cases us)
      case Nil
      with 2(1) have "a = body" by simp
      with nfb show ?thesis
        by (simp add: split_py_head fence_nonempty partition_py_None [THEN iffD2])
    next
      case c1: (Cons x1 u1)
      show ?thesis
      proof (cases u1)
        case Nil
        with c1 2(2) p1 show ?thesis by (auto simp: fence_def sql_tag_def startswith_iff)
      next
        case c2: (Cons x2 u2)
        show ?thesis
        proof (cases u2)
          case Nil
          with c1 c2 2(2) p2 show ?thesis by (auto simp: fence_def sql_tag_def startswith_iff)
        next
          case c3: (Cons x3 u3)
          with c1 c2 2(2) have "us = fence @ u3" by (auto simp: fence_def)
          with 2(1) have "a = body @ fence @ u3" by simp
          then show ?thesis
            using nf
            by (simp add: split_py_head fence_nonempty partition_py_first butlast_fence)
        qed
      qed
    qed
  qed
qed

text \<open>
  C2, amended. For a text with an SQL-tagged fenced block, the extractor returns the text
  strictly between the first SQL tag and the next fence, trimmed, whatever stands before
  and after, provided the closing fence is not followed at once by \<^verbatim>\<open>`sql\<close> or
  \<^verbatim>\<open>``sql\<close>. (There the split at the tag cuts inside the closing fence.) The first tag
  starts right after \<open>pre\<close> when the tag does not occur in \<open>pre\<close> followed by the tag
  without its last character; likewise for the fence after \<open>body\<close>.
\<close>

theorem tagged_fence_content:
  assumes "\<not> contains sql_tag (pre @ ''```sq'')"
    and "\<not> contains fence (body @ ''``'')"
    and "\<not> startswith post ''`sql''" and "\<not> startswith post ''``sql''"
  shows "extract_sql_from_response (pre @ sql_tag @ body @ fence @ post) = Some (strip body)"
proof -
  let ?R = "body @ fence @ post"
  have s1: "split_py sql_tag (pre @ sql_tag @ ?R) = pre # split_py sql_tag ?R"
    using assms(1) by (simp add: split_py_first sql_tag_nonempty butlast_sql_tag)
  have h: "nth_py (split_py sql_tag ?R) 0 =
      Some (case partition_py sql_tag ?R of None \<Rightarrow> ?R | Some (a, b) \<Rightarrow> a)"
    by (rule split_py_head [OF sql_tag_nonempty])
  have "nth_py (split_py fence (case partition_py sql_tag ?R of None \<Rightarrow> ?R | Some (a, b) \<Rightarrow> a)) 0
          = Some body"
  proof (cases "partition_py sql_tag ?R")
    case None
    then show ?thesis
      using assms(2)
      by (simp add: split_py_head fence_nonempty partition_py_first butlast_fence)
  next
    case (Some ab)
    obtain a b where ab: "ab = (a, b)" by (cases ab)
    with Some head_before_fence [OF assms(2,3,4)] show ?thesis by simp
  qed
  with h show ?thesis
    by (simp add: extract_sql_from_response_def contains_middle s1)
qed

theorem tagged_fence_content_witness:
  "\<not> contains sql_tag (''Here is the query: '' @ ''```sq'') \<and>
   \<not> contains fence ((newline @ ''SELECT * FROM Flights;'' @ newline) @ ''``'') \<and>
   \<not> startswith '' Explanation: all flights'' ''`sql'' \<and>
   \<not> startswith '' Explanation: all flights'' ''``sql'' \<and>
   extract_sql_from_response
     (''Here is the query: '' @ sql_tag @ (newline @ ''SELECT * FROM Flights;'' @ newline)
        @ fence @ '' Explanation: all flights'') = Some ''SELECT * FROM Flights;''"
proof -
  have a1: "\<not> contains sql_tag (''Here is the query: '' @ ''```sq'')" by code_simp
  have a2: "\<not> contains fence ((newline @ ''SELECT * FROM Flights;'' @ newline) @ ''``'')"
    by code_simp
  have a3: "\<not> startswith '' Explanation: all flights'' ''`sql''" by code_simp
  have a4: "\<not> startswith '' Explanation: all flights'' ''``sql''" by code_simp
  have a5: "strip (newline @ ''SELECT * FROM Flights;'' @ newline) = ''SELECT * FROM Flights;''"
    by code_simp
  from tagged_fence_content [OF a1 a2 a3 a4] a5 a1 a2 a3 a4 show ?thesis by simp
qed

text \<open>
  C2 as it is stated fails on the text \<^verbatim>\<open>```sql SELECT 1````sql\<close>: the content between the tag
  and the next fence is \<^verbatim>\<open> SELECT 1\<close>, and the result ends with a backquote.
\<close>

theorem tagged_fence_counterexample:
  "\<not> contains sql_tag ([] @ ''```sq'') \<and>
   \<not> contains fence ('' SELECT 1'' @ ''``'') \<and>
   extract_sql_from_response ([] @ sql_tag @ '' SELECT 1'' @ fence @ ''`sql'') =
     Some ''SELECT 1`'' \<and>
   extract_sql_from_response ([] @ sql_tag @ '' SELECT 1'' @ fence @ ''`sql'') \<noteq>
     Some (strip '' SELECT 1'')"
  by code_simp

section \<open>Extraction applied to its own result\<close>





















end
